theory Spec2Isabelle
  imports Main "HOL-Library.Word" "HOL-Library.List_Lexorder"
begin

section \<open>Bytes, run-time types and errors\<close>

text \<open>
  The table engine of \<^verbatim>\<open>package table\<close> (the second half of
  \<^verbatim>\<open>src/x/nft/nft.pb.go\<close>) and the row getter of
  \<^verbatim>\<open>src/x/group/internal/orm/types.go\<close>.

  A Go \<^verbatim>\<open>[]byte\<close> is a list of 8-bit words; \<^verbatim>\<open>bytes.Compare\<close> is the
  lexicographic order on such lists, which is the order of \<^verbatim>\<open>HOL-Library.List_Lexorder\<close>
  over the unsigned order of the bytes. A slice that may be nil is an optional byte list,
  \<open>None\<close> being nil: a \<^verbatim>\<open>RowID\<close> is such a slice, and so are the two bounds of
  a scan.
  \<open>slice_len\<close> is Go's \<^verbatim>\<open>len\<close> (zero on nil) and \<open>bytes_of\<close> gives the
  bytes that the slice holds (none on nil); \<^verbatim>\<open>RowID.Bytes\<close> returns the slice as
  it is.
\<close>

type_synonym byte = "8 word"
type_synonym bytes = "byte list"
type_synonym RowID = "bytes option"

definition slice_len :: "bytes option \<Rightarrow> nat" where
  "slice_len b = (case b of None \<Rightarrow> 0 | Some xs \<Rightarrow> length xs)"

definition bytes_of :: "bytes option \<Rightarrow> bytes" where
  "bytes_of b = (case b of None \<Rightarrow> [] | Some xs \<Rightarrow> xs)"

definition Bytes :: "RowID \<Rightarrow> bytes option" where
  "Bytes r = r"

definition bytes_Compare :: "bytes \<Rightarrow> bytes \<Rightarrow> int" where
  "bytes_Compare a b = (if a < b then - 1 else if a = b then 0 else 1)"

definition HasPrefix :: "bytes \<Rightarrow> bytes \<Rightarrow> bool" where
  "HasPrefix s p \<longleftrightarrow> take (length p) s = p"

text \<open>
  \<^verbatim>\<open>reflect.Type\<close>: a named struct type or a pointer to a type. An interface value
  \<^verbatim>\<open>codec.ProtoMarshaler\<close> is its dynamic type together with the contents it holds
  (for a pointer, the contents of the struct pointed to).
\<close>

datatype rtype = Struct nat | Ptr rtype

datatype 'r ProtoMarshaler = ProtoMarshaler (TypeOf: rtype) (content: 'r)

text \<open>
  The registered errors of \<^verbatim>\<open>types.go\<close>, the wrappers \<^verbatim>\<open>errors.Wrap\<close> and
  \<^verbatim>\<open>errors.Wrapf\<close> (the format string and its one argument are kept), errors of the
  external collaborators (codec, validation, interceptors), and a Go panic, which is a value
  of its own so that no returned error is mistaken for it.
\<close>

datatype fmtarg = ArgIndex nat | ArgType rtype

datatype error =
    ErrNotFound
  | ErrIteratorDone
  | ErrIteratorInvalid
  | ErrType
  | ErrUniqueConstraint
  | ErrArgument
  | ErrIndexKeyMaxLength
  | ErrEmptyKey
  | Wrap error string
  | Wrapf error string fmtarg
  | External nat
  | Panic string

text \<open>The registered error at the root of a chain of wrappers (what \<^verbatim>\<open>errors.Is\<close> sees).\<close>

fun cause :: "error \<Rightarrow> error" where
  "cause (Wrap e msg) = cause e"
| "cause (Wrapf e msg arg) = cause e"
| "cause e = e"

section \<open>The external collaborators\<close>

subsection \<open>The ordered key-value store\<close>

text \<open>
  Modelled from the spec: \<^verbatim>\<open>sdk.KVStore\<close> is not under src/. The spec (section 6)
  requires a byte-keyed ordered map offering Get, Set, Delete, Iterator(start, end)
  (ascending) and ReverseIterator(start, end) (descending), with \<^verbatim>\<open>end\<close> exclusive and
  a nil bound unbounded. The store is an association list read as a map (the first binding
  of a key is the current one); an iterator is the list of the entries it has still to
  visit, so \<^verbatim>\<open>Valid\<close> is non-emptiness, \<^verbatim>\<open>Key\<close> and \<^verbatim>\<open>Value\<close> read the
  head and \<^verbatim>\<open>Next\<close> drops it. This covers \<open>kv_Get\<close>, \<open>kv_Set\<close>,
  \<open>kv_Delete\<close>, \<open>kv_keys\<close>, \<open>in_range\<close>, \<open>kv_Iterator\<close>,
  \<open>kv_ReverseIterator\<close>, \<open>Valid\<close>, \<open>Key\<close>, \<open>Value\<close> and \<open>Next\<close>.
\<close>

type_synonym KVStore = "(bytes \<times> bytes) list"
type_synonym KVIterator = "(bytes \<times> bytes) list"

definition kv_Get :: "KVStore \<Rightarrow> bytes \<Rightarrow> bytes option" where
  "kv_Get s k = map_of s k"

definition kv_Set :: "KVStore \<Rightarrow> bytes \<Rightarrow> bytes \<Rightarrow> KVStore" where
  "kv_Set s k v = (k, v) # s"

definition kv_Delete :: "KVStore \<Rightarrow> bytes \<Rightarrow> KVStore" where
  "kv_Delete s k = filter (\<lambda>e. fst e \<noteq> k) s"

definition kv_keys :: "KVStore \<Rightarrow> bytes list" where
  "kv_keys s = sort (remdups (map fst s))"

definition in_range :: "bytes option \<Rightarrow> bytes option \<Rightarrow> bytes \<Rightarrow> bool" where
  "in_range start end' k \<longleftrightarrow>
     (case start of None \<Rightarrow> True | Some a \<Rightarrow> a \<le> k) \<and>
     (case end' of None \<Rightarrow> True | Some b \<Rightarrow> k < b)"

definition kv_Iterator :: "KVStore \<Rightarrow> bytes option \<Rightarrow> bytes option \<Rightarrow> KVIterator" where
  "kv_Iterator s start end' =
     map (\<lambda>k. (k, the (map_of s k))) (filter (in_range start end') (kv_keys s))"

definition kv_ReverseIterator :: "KVStore \<Rightarrow> bytes option \<Rightarrow> bytes option \<Rightarrow> KVIterator" where
  "kv_ReverseIterator s start end' = rev (kv_Iterator s start end')"

definition Valid :: "KVIterator \<Rightarrow> bool" where
  "Valid it \<longleftrightarrow> it \<noteq> []"

definition Key :: "KVIterator \<Rightarrow> bytes" where
  "Key it = fst (hd it)"

definition Value :: "KVIterator \<Rightarrow> bytes" where
  "Value it = snd (hd it)"

definition Next :: "KVIterator \<Rightarrow> KVIterator" where
  "Next it = tl it"

subsection \<open>The prefix store\<close>

text \<open>
  Modelled from the spec: \<^verbatim>\<open>prefix.NewStore\<close> is not under src/. The spec (sections 3
  and 6): the namespace prefix is prepended to every RowID when addressing the underlying
  store, partitioning one table's keyspace from the others in the same physical store. So
  Get, Set and Delete address the parent at \<^verbatim>\<open>prefix ++ key\<close>, and an iterator of the
  prefix store visits the keys of the parent that carry the prefix, with the prefix
  stripped, in the range asked for. Set asserts that its key is valid before it writes: on a
  key of length zero it panics ("key is nil") and the parent is not written; the table
  reaches Get and Delete with keys of non-zero length only. This covers \<open>prefix_Get\<close>,
  \<open>prefix_Set\<close>, \<open>prefix_Delete\<close>, \<open>prefix_keys\<close> and \<open>prefix_Iterator\<close>.
\<close>

definition prefix_Get :: "bytes \<Rightarrow> KVStore \<Rightarrow> bytes \<Rightarrow> bytes option" where
  "prefix_Get p s k = kv_Get s (p @ k)"

definition prefix_Set :: "bytes \<Rightarrow> KVStore \<Rightarrow> bytes \<Rightarrow> bytes \<Rightarrow> error + KVStore" where
  "prefix_Set p s k v =
     (if length k = 0 then Inl (Panic ''key is nil'') else Inr (kv_Set s (p @ k) v))"

definition prefix_Delete :: "bytes \<Rightarrow> KVStore \<Rightarrow> bytes \<Rightarrow> KVStore" where
  "prefix_Delete p s k = kv_Delete s (p @ k)"

definition prefix_keys :: "bytes \<Rightarrow> KVStore \<Rightarrow> bytes list" where
  "prefix_keys p s = map (drop (length p)) (filter (\<lambda>k. HasPrefix k p) (kv_keys s))"

definition prefix_Iterator :: "bytes \<Rightarrow> KVStore \<Rightarrow> bytes option \<Rightarrow> bytes option \<Rightarrow> KVIterator" where
  "prefix_Iterator p s start end' =
     map (\<lambda>k. (k, the (map_of s (p @ k)))) (filter (in_range start end') (prefix_keys p s))"

subsection \<open>PrefixRange\<close>

text \<open>
  Modelled from the spec: the body of \<^verbatim>\<open>PrefixRange\<close> is not under src/. This
  is its carry loop: while the byte at index \<open>l\<close> has overflowed to zero and \<open>l\<close> is
  not the first index, step left and increment the byte there.
\<close>

fun carry :: "nat \<Rightarrow> bytes \<Rightarrow> nat \<times> bytes" where
  "carry 0 end' = (0, end')"
| "carry (Suc l) end' =
     (if end' ! Suc l = 0 then carry l (end'[l := end' ! l + 1]) else (Suc l, end'))"

text \<open>
  Modelled from the spec: \<^verbatim>\<open>PrefixRange\<close> is called by the row getter and by
  \<^verbatim>\<open>Has\<close>, but its body is not under src/. The spec (section 4.2) calls the
  lookup "a single-key range probe" and does not say which range is probed; the model
  follows the function's name and its use as the two arguments of \<^verbatim>\<open>Iterator\<close>:
  it turns a key prefix into the (start, end) bounds of the keys that begin with it. On a
  nil prefix it panics (the comment on \<^verbatim>\<open>Has\<close>: "Panics on nil key"). Every key
  begins with the prefix of length zero, so for it the range is the whole key space (nil,
  nil). Otherwise start is the prefix itself; end is a copy of the prefix with its last byte
  incremented, the carry running leftwards over bytes that overflow to zero, and there is no
  end (nil) when every byte overflowed.
\<close>

definition PrefixRange :: "bytes option \<Rightarrow> error + (bytes option \<times> bytes option)" where
  "PrefixRange pfx' =
     (case pfx' of
        None \<Rightarrow> Inl (Panic ''nil key not allowed'')
      | Some pfx \<Rightarrow>
          if length pfx = 0 then Inr (None, None)
          else
            let l0 = length pfx - 1;
                (l, end') = carry l0 (pfx[l0 := pfx ! l0 + 1])
            in if l = 0 \<and> end' ! 0 = 0 then Inr (Some pfx, None)
               else Inr (Some pfx, Some end'))"

subsection \<open>Codec, validation and reflection\<close>

text \<open>
  \<^verbatim>\<open>codec.Codec\<close>: Marshal returns the bytes or an error; Unmarshal writes into the
  destination and returns an error, so the model returns the destination as Unmarshal left
  it together with the error. A table holds a codec that may be nil; calling a method on
  the nil codec panics.
\<close>

record 'r Codec =
  Marshal :: "'r ProtoMarshaler \<Rightarrow> error + bytes"
  Unmarshal :: "bytes \<Rightarrow> 'r ProtoMarshaler \<Rightarrow> 'r ProtoMarshaler \<times> error option"

definition cdc_Unmarshal ::
  "'r Codec option \<Rightarrow> bytes \<Rightarrow> 'r ProtoMarshaler \<Rightarrow> 'r ProtoMarshaler \<times> error option" where
  "cdc_Unmarshal cdc bz dest =
     (case cdc of
        None \<Rightarrow> (dest, Some (Panic ''nil pointer dereference''))
      | Some c \<Rightarrow> Unmarshal c bz dest)"

text \<open>
  What the run time knows about the record types: whether an object implements
  \<^verbatim>\<open>Validateable\<close> and, if so, what its \<^verbatim>\<open>ValidateBasic\<close> returns (the outer
  \<open>None\<close>: the type assertion fails), and the zero value that \<^verbatim>\<open>reflect.New\<close> allocates.
\<close>

record 'r Runtime =
  ValidateBasic :: "'r ProtoMarshaler \<Rightarrow> error option option"
  zero :: "rtype \<Rightarrow> 'r"

definition reflect_New :: "'r Runtime \<Rightarrow> rtype \<Rightarrow> 'r ProtoMarshaler" where
  "reflect_New rt tp = ProtoMarshaler (Ptr tp) (zero rt tp)"

section \<open>types.go\<close>

definition assertCorrectType :: "rtype \<Rightarrow> 'r ProtoMarshaler \<Rightarrow> error option" where
  "assertCorrectType model obj =
     (let tp = TypeOf obj in
      case tp of
        Ptr elem \<Rightarrow>
          if model \<noteq> elem
          then Some (Wrapf ErrType ''can not use %T with this bucket'' (ArgType tp))
          else None
      | Struct n \<Rightarrow> Some (Wrap ErrType ''model destination must be a pointer''))"

type_synonym 'r RowGetter =
  "KVStore \<Rightarrow> RowID \<Rightarrow> 'r ProtoMarshaler \<Rightarrow> 'r ProtoMarshaler \<times> error option"

text \<open>
  The row getter returns the destination as it leaves it and the error. The source takes
  the prefix as a \<^verbatim>\<open>[2]byte\<close> and slices it; the table hands it its one prefix byte, so
  the prefix is a byte list here.
\<close>

definition NewTypeSafeRowGetter :: "bytes \<Rightarrow> rtype \<Rightarrow> 'r Codec option \<Rightarrow> 'r RowGetter" where
  "NewTypeSafeRowGetter prefixKey model cdc store rowID dest =
     (if slice_len rowID = 0 then (dest, Some (Wrap ErrArgument ''key must not be nil''))
      else case assertCorrectType model dest of
        Some err \<Rightarrow> (dest, Some err)
      | None \<Rightarrow>
          (case PrefixRange rowID of
             Inl p \<Rightarrow> (dest, Some p)
           | Inr (start, end') \<Rightarrow>
               let it = prefix_Iterator prefixKey store start end'
               in if \<not> Valid it then (dest, Some ErrNotFound)
                  else cdc_Unmarshal cdc (Value it) dest))"

section \<open>The table\<close>

text \<open>
  An interceptor receives the store and may write to it: it returns the store as it leaves
  it together with its error. For \<^verbatim>\<open>AfterSaveInterceptor\<close> the old value is absent
  (nil) on Create.
\<close>

type_synonym 'r AfterSaveInterceptor =
  "KVStore \<Rightarrow> RowID \<Rightarrow> 'r ProtoMarshaler \<Rightarrow> 'r ProtoMarshaler option \<Rightarrow> KVStore \<times> error option"

type_synonym 'r AfterDeleteInterceptor =
  "KVStore \<Rightarrow> RowID \<Rightarrow> 'r ProtoMarshaler \<Rightarrow> KVStore \<times> error option"

text \<open>
  \<^verbatim>\<open>IndexKeyCodec\<close> is an interface declared outside src/; the builder only stores it,
  so it is a type parameter.
\<close>

record ('r, 'i) Builder =
  model :: rtype
  prefixData :: byte
  indexKeyCodec :: 'i
  afterSave :: "'r AfterSaveInterceptor list"
  afterDelete :: "'r AfterDeleteInterceptor list"
  cdc :: "'r Codec option"

record 'r Table =
  model :: rtype
  prefix :: byte
  afterSave :: "'r AfterSaveInterceptor list"
  afterDelete :: "'r AfterDeleteInterceptor list"
  cdc :: "'r Codec option"

text \<open>
  The three arguments of \<^verbatim>\<open>NewTableBuilder\<close> that Go allows to be nil are optional;
  a panic is the left summand.
\<close>

definition NewTableBuilder ::
  "byte \<Rightarrow> 'r ProtoMarshaler option \<Rightarrow> 'i option \<Rightarrow> 'r Codec option \<Rightarrow> error + ('r, 'i) Builder" where
  "NewTableBuilder prefixData' model' idxKeyCodec cdc' =
     (case model' of
        None \<Rightarrow> Inl (Panic ''Model must not be nil'')
      | Some m \<Rightarrow>
          (case idxKeyCodec of
             None \<Rightarrow> Inl (Panic ''IndexKeyCodec must not be nil'')
           | Some ikc \<Rightarrow>
               let tp = TypeOf m;
                   tp = (case tp of Ptr elem \<Rightarrow> elem | Struct n \<Rightarrow> tp)
               in Inr \<lparr> Builder.model = tp, prefixData = prefixData', indexKeyCodec = ikc,
                        Builder.afterSave = [], Builder.afterDelete = [], Builder.cdc = cdc' \<rparr>))"

definition Build :: "('r, 'i) Builder \<Rightarrow> 'r Table" where
  "Build a = \<lparr> model = Builder.model a, prefix = prefixData a,
               afterSave = Builder.afterSave a, afterDelete = Builder.afterDelete a,
               cdc = Builder.cdc a \<rparr>"

definition AddAfterSaveInterceptor ::
  "('r, 'i) Builder \<Rightarrow> 'r AfterSaveInterceptor \<Rightarrow> ('r, 'i) Builder" where
  "AddAfterSaveInterceptor a interceptor =
     a \<lparr> Builder.afterSave := Builder.afterSave a @ [interceptor] \<rparr>"

definition AddAfterDeleteInterceptor ::
  "('r, 'i) Builder \<Rightarrow> 'r AfterDeleteInterceptor \<Rightarrow> ('r, 'i) Builder" where
  "AddAfterDeleteInterceptor a interceptor =
     a \<lparr> Builder.afterDelete := Builder.afterDelete a @ [interceptor] \<rparr>"

definition assertValid :: "'r Runtime \<Rightarrow> 'r ProtoMarshaler \<Rightarrow> error option" where
  "assertValid rt obj =
     (case ValidateBasic rt obj of
        Some (Some err) \<Rightarrow> Some err
      | _ \<Rightarrow> None)"

definition GetOne :: "'r Table \<Rightarrow> 'r RowGetter" where
  "GetOne a store rowID dest =
     (let x = NewTypeSafeRowGetter [prefix a] (model a) (cdc a)
      in x store rowID dest)"

text \<open>
  The loops \<^verbatim>\<open>for i, itc := range a.afterSave\<close> and
  \<^verbatim>\<open>for i, itc := range a.afterDelete\<close>, from index \<open>i\<close> on.
\<close>

fun run_afterSave ::
  "nat \<Rightarrow> 'r AfterSaveInterceptor list \<Rightarrow> KVStore \<Rightarrow> RowID \<Rightarrow> 'r ProtoMarshaler \<Rightarrow>
   'r ProtoMarshaler option \<Rightarrow> KVStore \<times> error option" where
  "run_afterSave i [] store rowID newValue oldValue = (store, None)"
| "run_afterSave i (itc # rest) store rowID newValue oldValue =
     (case itc store rowID newValue oldValue of
        (store', Some err) \<Rightarrow> (store', Some (Wrapf err ''interceptor %d failed'' (ArgIndex i)))
      | (store', None) \<Rightarrow> run_afterSave (Suc i) rest store' rowID newValue oldValue)"

fun run_afterDelete ::
  "nat \<Rightarrow> 'r AfterDeleteInterceptor list \<Rightarrow> KVStore \<Rightarrow> RowID \<Rightarrow> 'r ProtoMarshaler \<Rightarrow>
   KVStore \<times> error option" where
  "run_afterDelete i [] store rowID oldValue = (store, None)"
| "run_afterDelete i (itc # rest) store rowID oldValue =
     (case itc store rowID oldValue of
        (store', Some err) \<Rightarrow>
          (store', Some (Wrapf err ''delete interceptor %d failed'' (ArgIndex i)))
      | (store', None) \<Rightarrow> run_afterDelete (Suc i) rest store' rowID oldValue)"

text \<open>
  A panic raised while the old value is loaded (the nil codec) is not an error value that
  \<^verbatim>\<open>errors.Wrap\<close> would see: it passes through unwrapped. So does the panic of the
  store's Set in \<^verbatim>\<open>Create\<close> and \<open>Update\<close>, which leaves the store as it was.
\<close>

fun load_old_value :: "error \<Rightarrow> error" where
  "load_old_value (Panic msg) = Panic msg"
| "load_old_value err = Wrap err ''load old value''"

definition Create ::
  "'r Runtime \<Rightarrow> 'r Table \<Rightarrow> KVStore \<Rightarrow> RowID \<Rightarrow> 'r ProtoMarshaler \<Rightarrow> KVStore \<times> error option" where
  "Create rt a store rowID obj =
     (case assertCorrectType (model a) obj of
        Some err \<Rightarrow> (store, Some err)
      | None \<Rightarrow>
     (case assertValid rt obj of
        Some err \<Rightarrow> (store, Some err)
      | None \<Rightarrow>
     (case cdc a of
        None \<Rightarrow> (store, Some (Panic ''nil pointer dereference''))
      | Some c \<Rightarrow>
     (case Marshal c obj of
        Inl err \<Rightarrow> (store, Some (Wrapf err ''failed to serialize %T'' (ArgType (TypeOf obj))))
      | Inr v \<Rightarrow>
     (case prefix_Set [prefix a] store (bytes_of rowID) v of
        Inl p \<Rightarrow> (store, Some p)
      | Inr store' \<Rightarrow> run_afterSave 0 (afterSave a) store' rowID obj None)))))"

definition Update ::
  "'r Runtime \<Rightarrow> 'r Table \<Rightarrow> KVStore \<Rightarrow> RowID \<Rightarrow> 'r ProtoMarshaler \<Rightarrow> KVStore \<times> error option" where
  "Update rt a store rowID newValue =
     (case assertCorrectType (model a) newValue of
        Some err \<Rightarrow> (store, Some err)
      | None \<Rightarrow>
     (case assertValid rt newValue of
        Some err \<Rightarrow> (store, Some err)
      | None \<Rightarrow>
     (case GetOne a store rowID (reflect_New rt (model a)) of
        (oldValue, Some err) \<Rightarrow> (store, Some (load_old_value err))
      | (oldValue, None) \<Rightarrow>
     (case cdc a of
        None \<Rightarrow> (store, Some (Panic ''nil pointer dereference''))
      | Some c \<Rightarrow>
     (case Marshal c newValue of
        Inl err \<Rightarrow>
          (store, Some (Wrapf err ''failed to serialize %T'' (ArgType (TypeOf newValue))))
      | Inr newValueEncoded \<Rightarrow>
     (case prefix_Set [prefix a] store (bytes_of rowID) newValueEncoded of
        Inl p \<Rightarrow> (store, Some p)
      | Inr store' \<Rightarrow>
          run_afterSave 0 (afterSave a) store' rowID newValue (Some oldValue)))))))"

definition Delete :: "'r Runtime \<Rightarrow> 'r Table \<Rightarrow> KVStore \<Rightarrow> RowID \<Rightarrow> KVStore \<times> error option" where
  "Delete rt a store rowID =
     (case GetOne a store rowID (reflect_New rt (model a)) of
        (oldValue, Some err) \<Rightarrow> (store, Some (load_old_value err))
      | (oldValue, None) \<Rightarrow>
          run_afterDelete 0 (afterDelete a) (prefix_Delete [prefix a] store (bytes_of rowID))
            rowID oldValue)"

text \<open>\<^verbatim>\<open>Has\<close> returns a boolean; the left summand is the panic of \<^verbatim>\<open>PrefixRange\<close>.\<close>

definition Has :: "'r Table \<Rightarrow> KVStore \<Rightarrow> RowID \<Rightarrow> error + bool" where
  "Has a store rowID =
     (case PrefixRange rowID of
        Inl p \<Rightarrow> Inl p
      | Inr (start, end') \<Rightarrow> Inr (Valid (prefix_Iterator [prefix a] store start end')))"

subsection \<open>Scans\<close>

text \<open>
  A scan returns one of two implementations of the \<^verbatim>\<open>Iterator\<close> interface: the
  invalid iterator or the typed iterator, which holds a row getter and an iterator of the
  store.
\<close>

datatype 'r Iterator =
    InvalidIterator
  | typeSafeIterator (rowGetter: "'r RowGetter") (it: KVIterator)

text \<open>
  Modelled from the spec: \<^verbatim>\<open>NewInvalidIterator\<close> and the \<^verbatim>\<open>LoadNext\<close> of
  the iterator it returns are not under src/. The spec (sections 4.2, 4.4 and 7): it is the
  distinguished always-invalid iterator, and \<^verbatim>\<open>LoadNext\<close> called on it returns
  IteratorInvalid.
\<close>

definition NewInvalidIterator :: "'r Iterator" where
  "NewInvalidIterator = InvalidIterator"

definition InvalidIterator_LoadNext ::
  "'r ProtoMarshaler \<Rightarrow> RowID \<times> 'r ProtoMarshaler \<times> error option" where
  "InvalidIterator_LoadNext dest = (None, dest, Some ErrIteratorInvalid)"

text \<open>
  As in the source, a scan hands its bounds to the iterator of the store it was given.
\<close>

definition PrefixScan ::
  "'r Table \<Rightarrow> KVStore \<Rightarrow> bytes option \<Rightarrow> bytes option \<Rightarrow> 'r Iterator \<times> error option" where
  "PrefixScan a store start end' =
     (if start \<noteq> None \<and> end' \<noteq> None \<and> bytes_Compare (the start) (the end') \<ge> 0
      then (NewInvalidIterator, Some (Wrap ErrArgument ''start must be before end''))
      else (typeSafeIterator (NewTypeSafeRowGetter [prefix a] (model a) (cdc a))
              (kv_Iterator store start end'), None))"

definition ReversePrefixScan ::
  "'r Table \<Rightarrow> KVStore \<Rightarrow> bytes option \<Rightarrow> bytes option \<Rightarrow> 'r Iterator \<times> error option" where
  "ReversePrefixScan a store start end' =
     (if start \<noteq> None \<and> end' \<noteq> None \<and> bytes_Compare (the start) (the end') \<ge> 0
      then (NewInvalidIterator, Some (Wrap ErrArgument ''start must be before end''))
      else (typeSafeIterator (NewTypeSafeRowGetter [prefix a] (model a) (cdc a))
              (kv_ReverseIterator store start end'), None))"

text \<open>
  \<^verbatim>\<open>typeSafeIterator.LoadNext\<close> returns the underlying iterator as it leaves it,
  the RowID (nil when it has none), the destination as it leaves it, and the error.
\<close>

definition typeSafeIterator_LoadNext ::
  "'r RowGetter \<Rightarrow> KVIterator \<Rightarrow> KVStore \<Rightarrow> 'r ProtoMarshaler \<Rightarrow>
   KVIterator \<times> RowID \<times> 'r ProtoMarshaler \<times> error option" where
  "typeSafeIterator_LoadNext rg i store dest =
     (if \<not> Valid i then (i, None, dest, Some ErrIteratorDone)
      else
        let rowID = Some (Key i);
            i' = Next i;
            (dest', err) = rg store rowID dest
        in (i', rowID, dest', err))"

text \<open>
  A call of \<^verbatim>\<open>LoadNext\<close> through the interface: the iterator as the call leaves it
  and what the call returns.
\<close>

fun LoadNext ::
  "'r Iterator \<Rightarrow> KVStore \<Rightarrow> 'r ProtoMarshaler \<Rightarrow>
   'r Iterator \<times> RowID \<times> 'r ProtoMarshaler \<times> error option" where
  "LoadNext (typeSafeIterator rg i) store dest =
     (case typeSafeIterator_LoadNext rg i store dest of
        (i', res) \<Rightarrow> (typeSafeIterator rg i', res))"
| "LoadNext InvalidIterator store dest = (InvalidIterator, InvalidIterator_LoadNext dest)"

section \<open>Notions used to state the properties\<close>

text \<open>
  The store that each interceptor of a chain receives is the store its predecessor left:
  \<open>save_step\<close> and \<open>delete_step\<close> are one such hand-over, and a list of
  interceptors succeeds from a store when each of them, run on the store handed to it,
  returns no error. An AfterSave interceptor leaves the namespace of a table alone when the
  rows of the table read the same before and after it.
\<close>

definition save_step ::
  "RowID \<Rightarrow> 'r ProtoMarshaler \<Rightarrow> 'r ProtoMarshaler option \<Rightarrow> KVStore \<Rightarrow> 'r AfterSaveInterceptor \<Rightarrow> KVStore" where
  "save_step rowID newValue oldValue store itc = fst (itc store rowID newValue oldValue)"

definition delete_step ::
  "RowID \<Rightarrow> 'r ProtoMarshaler \<Rightarrow> KVStore \<Rightarrow> 'r AfterDeleteInterceptor \<Rightarrow> KVStore" where
  "delete_step rowID oldValue store itc = fst (itc store rowID oldValue)"

definition saves_succeed ::
  "'r AfterSaveInterceptor list \<Rightarrow> KVStore \<Rightarrow> RowID \<Rightarrow> 'r ProtoMarshaler \<Rightarrow> 'r ProtoMarshaler option \<Rightarrow> bool" where
  "saves_succeed xs store rowID newValue oldValue \<longleftrightarrow>
     (\<forall>j<length xs.
        snd ((xs ! j) (foldl (save_step rowID newValue oldValue) store (take j xs))
               rowID newValue oldValue) = None)"

definition deletes_succeed ::
  "'r AfterDeleteInterceptor list \<Rightarrow> KVStore \<Rightarrow> RowID \<Rightarrow> 'r ProtoMarshaler \<Rightarrow> bool" where
  "deletes_succeed xs store rowID oldValue \<longleftrightarrow>
     (\<forall>j<length xs.
        snd ((xs ! j) (foldl (delete_step rowID oldValue) store (take j xs)) rowID oldValue) = None)"

definition leaves_namespace :: "byte \<Rightarrow> 'r AfterSaveInterceptor \<Rightarrow> bool" where
  "leaves_namespace p itc \<longleftrightarrow>
     (\<forall>store rowID newValue oldValue.
        prefix_Iterator [p] (fst (itc store rowID newValue oldValue)) None None =
        prefix_Iterator [p] store None None)"

section \<open>A concrete table\<close>

text \<open>
  A record type whose contents are bytes, with the codec that stores the contents as they
  are; a table under prefix byte 1 without interceptors, one whose interceptors maintain an
  index under prefix byte 2 and leave a mark, one whose second interceptor fails, and one whose
  interceptor removes the row that was just saved.
\<close>

definition bytesCodec :: "bytes Codec" where
  "bytesCodec = \<lparr> Marshal = (\<lambda>obj. Inr (content obj)),
                  Unmarshal = (\<lambda>bz dest. (ProtoMarshaler (TypeOf dest) bz, None)) \<rparr>"

definition plainRuntime :: "bytes Runtime" where
  "plainRuntime = \<lparr> ValidateBasic = (\<lambda>obj. None), zero = (\<lambda>tp. []) \<rparr>"

definition indexWriter :: "bytes AfterSaveInterceptor" where
  "indexWriter store rowID newValue oldValue = (kv_Set store (2 # bytes_of rowID) [], None)"

definition failingSave :: "bytes AfterSaveInterceptor" where
  "failingSave store rowID newValue oldValue = (store, Some (External 7))"

definition markerSave :: "bytes AfterSaveInterceptor" where
  "markerSave store rowID newValue oldValue = (kv_Set store [9] [9], None)"

definition rowEraser :: "bytes AfterSaveInterceptor" where
  "rowEraser store rowID newValue oldValue = (kv_Delete store (1 # bytes_of rowID), None)"

definition indexRemover :: "bytes AfterDeleteInterceptor" where
  "indexRemover store rowID oldValue = (kv_Delete store (2 # bytes_of rowID), None)"

definition failingDelete :: "bytes AfterDeleteInterceptor" where
  "failingDelete store rowID oldValue = (store, Some (External 8))"

definition markerDelete :: "bytes AfterDeleteInterceptor" where
  "markerDelete store rowID oldValue = (kv_Set store [9] [9], None)"

definition nftTable :: "bytes Table" where
  "nftTable = \<lparr> model = Struct 1, prefix = 1, afterSave = [], afterDelete = [],
                cdc = Some bytesCodec \<rparr>"

definition indexedTable :: "bytes Table" where
  "indexedTable = \<lparr> model = Struct 1, prefix = 1, afterSave = [indexWriter, markerSave],
                    afterDelete = [indexRemover, markerDelete], cdc = Some bytesCodec \<rparr>"

definition failingTable :: "bytes Table" where
  "failingTable = \<lparr> model = Struct 1, prefix = 1,
                    afterSave = [indexWriter, failingSave, markerSave],
                    afterDelete = [indexRemover, failingDelete, markerDelete],
                    cdc = Some bytesCodec \<rparr>"

definition erasingTable :: "bytes Table" where
  "erasingTable = \<lparr> model = Struct 1, prefix = 1, afterSave = [rowEraser], afterDelete = [],
                    cdc = Some bytesCodec \<rparr>"

definition row :: "bytes \<Rightarrow> bytes ProtoMarshaler" where
  "row c = ProtoMarshaler (Ptr (Struct 1)) c"

section \<open>Lexicographic order and prefixes\<close>

lemma append_less_cancel: "(p @ xs < p @ ys) = (xs < (ys :: bytes))"
  by (induction p) simp_all

lemma append_le_cancel: "(p @ xs \<le> p @ ys) = (xs \<le> (ys :: bytes))"
  by (induction p) simp_all

lemma le_append_self: "xs \<le> xs @ (zs :: bytes)"
  by (induction xs) simp_all

lemma HasPrefix_iff: "HasPrefix s p \<longleftrightarrow> (\<exists>z. s = p @ z)"
  unfolding HasPrefix_def
  by (metis append_eq_conv_conj append_take_drop_id)

lemma HasPrefix_append [simp]: "HasPrefix (p @ z) p"
  by (simp add: HasPrefix_def)

lemma HasPrefix_Cons: "HasPrefix (d # x) (c # k) \<longleftrightarrow> c = d \<and> HasPrefix x k"
  by (auto simp: HasPrefix_def)

lemma HasPrefix_Nil [simp]: "HasPrefix x []"
  by (simp add: HasPrefix_def)

lemma beyond_prefix:
  "k \<le> x \<Longrightarrow> \<not> HasPrefix x k \<Longrightarrow> HasPrefix y k \<Longrightarrow> y < x"
proof (induction k arbitrary: x y)
  case Nil
  then show ?case by simp
next
  case (Cons c k)
  from Cons.prems(1) obtain d x' where x: "x = d # x'"
    by (cases x) auto
  from Cons.prems(3) obtain y' where y: "y = c # y'" and py: "HasPrefix y' k"
    by (cases y) (auto simp: HasPrefix_def)
  show ?case
  proof (cases "c < d")
    case True
    then show ?thesis by (simp add: x y)
  next
    case False
    with Cons.prems(1) x have cd: "c = d" and le: "k \<le> x'" by auto
    from Cons.prems(2) x cd have "\<not> HasPrefix x' k" by (simp add: HasPrefix_Cons)
    from Cons.IH [OF le this py] show ?thesis by (simp add: x y cd)
  qed
qed

lemma less_at_index:
  "l < length k \<Longrightarrow> length e = length k \<Longrightarrow> take l e = take l k \<Longrightarrow> k ! l < e ! l
   \<Longrightarrow> k @ z < (e :: bytes)"
proof -
  assume a: "l < length k" "length e = length k" "take l e = take l k" "k ! l < e ! l"
  have k: "k @ z = take l k @ (k ! l # drop (Suc l) k @ z)"
    using a(1) by (simp add: id_take_nth_drop [symmetric])
  have e: "e = take l k @ (e ! l # drop (Suc l) e)"
    using a(1,2,3) by (metis id_take_nth_drop)
  have "take l k @ (k ! l # drop (Suc l) k @ z) < take l k @ (e ! l # drop (Suc l) e)"
    unfolding append_less_cancel using a(4) by simp
  with k e show ?thesis by metis
qed

lemma byte_less_succ: "(b :: byte) + 1 \<noteq> 0 \<Longrightarrow> b < b + 1"
  using inc_less_eq_self_iff_eq [of b] by (cases "b + 1 \<le> b") auto

lemma carry_inv:
  "l < length k \<Longrightarrow> length e = length k \<Longrightarrow> take l e = take l k \<Longrightarrow> e ! l = k ! l + 1
   \<Longrightarrow> carry l e = (l', e')
   \<Longrightarrow> l' < length k \<and> length e' = length k \<and> take l' e' = take l' k \<and> e' ! l' = k ! l' + 1
       \<and> (e' ! l' = 0 \<longrightarrow> l' = 0)"
proof (induction l arbitrary: e)
  case 0
  then show ?case by auto
next
  case (Suc l)
  show ?case
  proof (cases "e ! Suc l = 0")
    case True
    let ?e = "e[l := e ! l + 1]"
    have el: "e ! l = k ! l"
      using Suc.prems(1,2,3) by (metis lessI nth_take)
    have "carry l ?e = (l', e')" using Suc.prems(5) True by simp
    moreover have "l < length k" using Suc.prems(1) by simp
    moreover have "length ?e = length k" using Suc.prems(2) by simp
    moreover have "take l ?e = take l k"
      using Suc.prems(3) by (metis Suc_leD le_refl take_update_cancel take_Suc_conv_app_nth  Suc.prems(1) Suc.prems(2) butlast_snoc butlast_take diff_Suc_1 less_imp_le_nat)
    moreover have "?e ! l = k ! l + 1"
      using el Suc.prems(1,2) by simp
    ultimately show ?thesis using Suc.IH by blast
  next
    case False
    with Suc.prems show ?thesis by auto
  qed
qed


lemma PrefixRange_start:
  "k \<noteq> [] \<Longrightarrow> \<exists>e. PrefixRange (Some k) = Inr (Some k, e)"
  by (simp add: PrefixRange_def Let_def split: prod.split)

lemma PrefixRange_end:
  assumes "PrefixRange (Some k) = Inr (st, Some e)" and "HasPrefix y k"
  shows "y < e"
proof -
  from assms(1) have ne: "k \<noteq> []"
    by (auto simp: PrefixRange_def)
  let ?l0 = "length k - 1"
  let ?e0 = "k[?l0 := k ! ?l0 + 1]"
  obtain l e' where c: "carry ?l0 ?e0 = (l, e')"
    by (cases "carry ?l0 ?e0")
  from assms(1) c ne have e: "e' = e" and nz: "\<not> (l = 0 \<and> e' ! 0 = 0)"
    by (auto simp: PrefixRange_def Let_def split: if_splits)
  have "?l0 < length k" using ne by simp
  moreover have "length ?e0 = length k" by simp
  moreover have "take ?l0 ?e0 = take ?l0 k" by simp
  moreover have "?e0 ! ?l0 = k ! ?l0 + 1" using ne by simp
  ultimately have inv: "l < length k" "length e' = length k" "take l e' = take l k"
      "e' ! l = k ! l + 1" "e' ! l = 0 \<longrightarrow> l = 0"
    using carry_inv [OF _ _ _ _ c] by blast+
  from inv(5) nz have "e' ! l \<noteq> 0" by auto
  with inv(4) have "k ! l < e' ! l"
    using byte_less_succ [of "k ! l"] by simp
  from less_at_index [OF inv(1) inv(2) inv(3) this] assms(2) e
  show ?thesis by (auto simp: HasPrefix_iff)
qed

lemma in_PrefixRange:
  assumes "PrefixRange (Some k) = Inr (st, en)" and "HasPrefix y k"
  shows "in_range st en y"
proof (cases "k = []")
  case True
  with assms(1) show ?thesis by (simp add: PrefixRange_def in_range_def)
next
  case False
  with assms(1) have st: "st = Some k"
    by (auto simp: PrefixRange_def Let_def split: if_splits prod.splits)
  from assms(2) have "k \<le> y"
    by (auto simp: HasPrefix_iff le_append_self)
  moreover have "y < e" if "en = Some e" for e
    using PrefixRange_end assms that by blast
  ultimately show ?thesis
    by (auto simp: in_range_def st split: option.split)
qed

lemma PrefixRange_lower:
  "PrefixRange (Some k) = Inr (st, en) \<Longrightarrow> in_range st en x \<Longrightarrow> k \<le> x"
  by (auto simp: PrefixRange_def Let_def in_range_def split: if_splits prod.splits)

section \<open>The range probe\<close>

lemma kv_keys_set: "set (kv_keys s) = fst ` set s"
  by (simp add: kv_keys_def)

lemma kv_keys_sorted: "sorted_wrt (<) (kv_keys s)"
  by (simp add: kv_keys_def strict_sorted_iff)

lemma kv_keys_dom: "k \<in> set (kv_keys s) \<longleftrightarrow> kv_Get s k \<noteq> None"
  by (simp add: kv_keys_set kv_Get_def map_of_eq_None_iff)

lemma prefix_keys_set: "x \<in> set (prefix_keys p s) \<longleftrightarrow> kv_Get s (p @ x) \<noteq> None"
proof
  assume "x \<in> set (prefix_keys p s)"
  then obtain k where k: "k \<in> set (kv_keys s)" "HasPrefix k p" "x = drop (length p) k"
    by (auto simp: prefix_keys_def)
  from k(2,3) have "k = p @ x" by (auto simp: HasPrefix_iff)
  with k(1) show "kv_Get s (p @ x) \<noteq> None" by (simp add: kv_keys_dom)
next
  assume "kv_Get s (p @ x) \<noteq> None"
  then have "p @ x \<in> set (kv_keys s)" by (simp add: kv_keys_dom)
  then have "p @ x \<in> set (filter (\<lambda>k. HasPrefix k p) (kv_keys s))" by simp
  then have "drop (length p) (p @ x) \<in> set (prefix_keys p s)"
    unfolding prefix_keys_def set_map by (rule imageI)
  then show "x \<in> set (prefix_keys p s)" by simp
qed

lemma prefix_keys_sorted: "sorted_wrt (<) (prefix_keys p s)"
proof -
  have "sorted_wrt (<) (filter (\<lambda>k. HasPrefix k p) (kv_keys s))"
    by (rule sorted_wrt_filter) (rule kv_keys_sorted)
  then have "sorted_wrt (\<lambda>a b. drop (length p) a < drop (length p) b)
               (filter (\<lambda>k. HasPrefix k p) (kv_keys s))"
  proof (rule sorted_wrt_mono_rel [rotated])
    fix a b
    assume "a \<in> set (filter (\<lambda>k. HasPrefix k p) (kv_keys s))"
       and "b \<in> set (filter (\<lambda>k. HasPrefix k p) (kv_keys s))" and "a < b"
    then show "drop (length p) a < drop (length p) b"
      by (auto simp: HasPrefix_iff append_less_cancel)
  qed
  then show ?thesis by (simp add: prefix_keys_def sorted_wrt_map)
qed

lemma hd_filter_least:
  assumes "sorted_wrt (<) (ks :: bytes list)" and "m \<in> set ks" and "P m"
    and "\<forall>x\<in>set ks. P x \<longrightarrow> m \<le> x"
  shows "filter P ks \<noteq> [] \<and> hd (filter P ks) = m"
proof -
  from assms(2,3) have m: "m \<in> set (filter P ks)" by simp
  then obtain a r where f: "filter P ks = a # r" by (cases "filter P ks") auto
  have "sorted_wrt (<) (filter P ks)" using assms(1) by (rule sorted_wrt_filter)
  with f m have "a \<le> m" by auto
  moreover have "a \<in> set (filter P ks)" using f by simp
  then have "m \<le> a" using assms(4) by simp
  ultimately show ?thesis using f by simp
qed

text \<open>The first entry of a range probe of the prefix store.\<close>

lemma prefix_Iterator_first:
  assumes "kv_Get s (p @ m) = Some v" and "in_range st en m"
    and "\<forall>x. kv_Get s (p @ x) \<noteq> None \<and> in_range st en x \<longrightarrow> m \<le> x"
  shows "Valid (prefix_Iterator p s st en)" and "Value (prefix_Iterator p s st en) = v"
    and "Key (prefix_Iterator p s st en) = m"
proof -
  have "m \<in> set (prefix_keys p s)" using assms(1) by (simp add: prefix_keys_set)
  moreover have "\<forall>x\<in>set (prefix_keys p s). in_range st en x \<longrightarrow> m \<le> x"
    using assms(3) by (simp add: prefix_keys_set)
  ultimately have h: "filter (in_range st en) (prefix_keys p s) \<noteq> []"
      "hd (filter (in_range st en) (prefix_keys p s)) = m"
    using hd_filter_least [OF prefix_keys_sorted, of m p s "in_range st en"] assms(2) by blast+
  from h(1) show "Valid (prefix_Iterator p s st en)"
    by (simp add: Valid_def prefix_Iterator_def)
  from h assms(1) show "Value (prefix_Iterator p s st en) = v"
    by (simp add: Value_def prefix_Iterator_def hd_map kv_Get_def)
  from h show "Key (prefix_Iterator p s st en) = m"
    by (simp add: Key_def prefix_Iterator_def hd_map)
qed

lemma prefix_Iterator_empty:
  "\<not> Valid (prefix_Iterator p s st en) \<longleftrightarrow> (\<forall>x. kv_Get s (p @ x) \<noteq> None \<longrightarrow> \<not> in_range st en x)"
  by (auto simp: Valid_def prefix_Iterator_def filter_empty_conv prefix_keys_set)

text \<open>The least key of the namespace that extends a prefix is the first entry of the probe.\<close>

lemma probe_first:
  assumes "PrefixRange (Some k) = Inr (st, en)"
    and "kv_Get s (p @ m) = Some v" and "HasPrefix m k"
    and "\<forall>x. HasPrefix x k \<and> kv_Get s (p @ x) \<noteq> None \<longrightarrow> m \<le> x"
  shows "Valid (prefix_Iterator p s st en)" and "Value (prefix_Iterator p s st en) = v"
proof -
  have r: "in_range st en m" using assms(1,3) by (rule in_PrefixRange)
  have least: "\<forall>x. kv_Get s (p @ x) \<noteq> None \<and> in_range st en x \<longrightarrow> m \<le> x"
  proof (intro allI impI)
    fix x assume x: "kv_Get s (p @ x) \<noteq> None \<and> in_range st en x"
    show "m \<le> x"
    proof (cases "HasPrefix x k")
      case True
      with x assms(4) show ?thesis by blast
    next
      case False
      from x assms(1) have "k \<le> x" using PrefixRange_lower by blast
      from beyond_prefix [OF this False assms(3)] show ?thesis by simp
    qed
  qed
  from prefix_Iterator_first [OF assms(2) r least]
  show "Valid (prefix_Iterator p s st en)" and "Value (prefix_Iterator p s st en) = v"
    by blast+
qed

lemma least_extension:
  assumes "HasPrefix y k" and "kv_Get s (p @ y) \<noteq> None"
  shows "\<exists>m v. HasPrefix m k \<and> kv_Get s (p @ m) = Some v \<and>
           (\<forall>x. HasPrefix x k \<and> kv_Get s (p @ x) \<noteq> None \<longrightarrow> m \<le> x)"
proof -
  let ?A = "{x \<in> set (prefix_keys p s). HasPrefix x k}"
  have fin: "finite ?A" by simp
  have ne: "?A \<noteq> {}" using assms by (auto simp: prefix_keys_set)
  have "Min ?A \<in> ?A" using fin ne by (rule Min_in)
  moreover have "\<forall>x\<in>?A. Min ?A \<le> x" using fin by simp
  ultimately have "HasPrefix (Min ?A) k" and "kv_Get s (p @ Min ?A) \<noteq> None"
    and "\<forall>x. HasPrefix x k \<and> kv_Get s (p @ x) \<noteq> None \<longrightarrow> Min ?A \<le> x"
    by (auto simp: prefix_keys_set)
  then show ?thesis by blast
qed

lemma rowGetter_first_match:
  assumes "k \<noteq> []" and "assertCorrectType mdl dest = None"
    and "kv_Get s (p @ m) = Some v" and "HasPrefix m k"
    and "\<forall>x. HasPrefix x k \<and> kv_Get s (p @ x) \<noteq> None \<longrightarrow> m \<le> x"
  shows "NewTypeSafeRowGetter p mdl c s (Some k) dest = cdc_Unmarshal c v dest"
proof -
  from PrefixRange_start [OF assms(1)]
  obtain en where pr: "PrefixRange (Some k) = Inr (Some k, en)" ..
  from probe_first [OF pr assms(3,4,5)] assms(1,2) pr show ?thesis
    by (simp add: NewTypeSafeRowGetter_def slice_len_def)
qed

lemma Has_first_match:
  assumes "k \<noteq> []" and "kv_Get s (prefix a # y) \<noteq> None" and "HasPrefix y k"
  shows "Has a s (Some k) = Inr True"
proof -
  from PrefixRange_start [OF assms(1)]
  obtain en where pr: "PrefixRange (Some k) = Inr (Some k, en)" ..
  from least_extension [OF assms(3), of s "[prefix a]"] assms(2)
  obtain m v where "HasPrefix m k" "kv_Get s ([prefix a] @ m) = Some v"
     "\<forall>x. HasPrefix x k \<and> kv_Get s ([prefix a] @ x) \<noteq> None \<longrightarrow> m \<le> x" by auto
  from probe_first(1) [OF pr this(2,1,3)] pr show ?thesis
    by (simp add: Has_def)
qed

section \<open>Interceptor chains\<close>

lemma saves_succeed_Cons:
  "saves_succeed (x # xs) s k n ov \<longleftrightarrow>
     snd (x s k n ov) = None \<and> saves_succeed xs (save_step k n ov s x) k n ov"
  unfolding saves_succeed_def
  by (auto simp: less_Suc_eq_0_disj)

lemma run_afterSave_append:
  "saves_succeed xs s k n ov \<Longrightarrow>
   run_afterSave i (xs @ rest) s k n ov =
   run_afterSave (i + length xs) rest (foldl (save_step k n ov) s xs) k n ov"
proof (induction xs arbitrary: i s)
  case Nil
  then show ?case by simp
next
  case (Cons x xs)
  from Cons.prems have x: "snd (x s k n ov) = None"
    and rest: "saves_succeed xs (save_step k n ov s x) k n ov"
    by (simp_all add: saves_succeed_Cons)
  from x have "x s k n ov = (save_step k n ov s x, None)"
    by (cases "x s k n ov") (simp add: save_step_def)
  with Cons.IH [OF rest, of "Suc i"] show ?case by simp
qed

lemma deletes_succeed_Cons:
  "deletes_succeed (x # xs) s k v \<longleftrightarrow>
     snd (x s k v) = None \<and> deletes_succeed xs (delete_step k v s x) k v"
  unfolding deletes_succeed_def
  by (auto simp: less_Suc_eq_0_disj)

lemma run_afterDelete_append:
  "deletes_succeed xs s k v \<Longrightarrow>
   run_afterDelete i (xs @ rest) s k v =
   run_afterDelete (i + length xs) rest (foldl (delete_step k v) s xs) k v"
proof (induction xs arbitrary: i s)
  case Nil
  then show ?case by simp
next
  case (Cons x xs)
  from Cons.prems have x: "snd (x s k v) = None"
    and rest: "deletes_succeed xs (delete_step k v s x) k v"
    by (simp_all add: deletes_succeed_Cons)
  from x have "x s k v = (delete_step k v s x, None)"
    by (cases "x s k v") (simp add: delete_step_def)
  with Cons.IH [OF rest, of "Suc i"] show ?case by simp
qed

lemma in_range_unbounded [simp]: "in_range None None x"
  by (simp add: in_range_def)

lemma prefix_Iterator_filter:
  "prefix_Iterator p s st en = filter (\<lambda>e. in_range st en (fst e)) (prefix_Iterator p s None None)"
  by (simp add: prefix_Iterator_def filter_map comp_def)

lemma rowGetter_same_namespace:
  assumes "prefix_Iterator p s None None = prefix_Iterator p s' None None"
  shows "NewTypeSafeRowGetter p mdl c s k d = NewTypeSafeRowGetter p mdl c s' k d"
proof -
  have "prefix_Iterator p s st en = prefix_Iterator p s' st en" for st en
    using assms prefix_Iterator_filter by metis
  then show ?thesis
    by (auto simp: NewTypeSafeRowGetter_def split: option.splits sum.splits)
qed

lemma run_afterSave_namespace:
  "\<forall>itc\<in>set xs. leaves_namespace p itc \<Longrightarrow>
   prefix_Iterator [p] (fst (run_afterSave i xs s k n ov)) None None =
   prefix_Iterator [p] s None None"
proof (induction xs arbitrary: i s)
  case Nil
  then show ?case by simp
next
  case (Cons x xs)
  obtain s1 r where x: "x s k n ov = (s1, r)" by (cases "x s k n ov")
  from Cons.prems have "leaves_namespace p x" by simp
  then have s1: "prefix_Iterator [p] s1 None None = prefix_Iterator [p] s None None"
    unfolding leaves_namespace_def using x by (metis fst_conv)
  show ?case
  proof (cases r)
    case None
    with x Cons.IH [of "Suc i" s1] Cons.prems s1 show ?thesis by simp
  next
    case (Some e)
    with x s1 show ?thesis by simp
  qed
qed

lemma prefix_keys_other_namespace:
  assumes "\<not> HasPrefix k' p"
  shows "prefix_keys p (kv_Set s k' v) = prefix_keys p s"
proof (rule sorted_distinct_set_unique)
  show "sorted (prefix_keys p (kv_Set s k' v))" "distinct (prefix_keys p (kv_Set s k' v))"
    "sorted (prefix_keys p s)" "distinct (prefix_keys p s)"
    using prefix_keys_sorted strict_sorted_iff by blast+
  have "kv_Get (kv_Set s k' v) (p @ x) = kv_Get s (p @ x)" for x
    using assms by (auto simp: kv_Get_def kv_Set_def)
  then show "set (prefix_keys p (kv_Set s k' v)) = set (prefix_keys p s)"
    by (auto simp: prefix_keys_set)
qed

lemma prefix_Iterator_other_namespace:
  assumes "\<not> HasPrefix k' p"
  shows "prefix_Iterator p (kv_Set s k' v) st en = prefix_Iterator p s st en"
proof -
  have "map_of (kv_Set s k' v) (p @ x) = map_of s (p @ x)" for x
    using assms by (auto simp: kv_Set_def)
  then show ?thesis
    by (simp add: prefix_Iterator_def prefix_keys_other_namespace [OF assms])
qed

lemma saves_succeed_Nil [simp]: "saves_succeed [] s k n ov"
  by (simp add: saves_succeed_def)

lemma deletes_succeed_Nil [simp]: "deletes_succeed [] s k v"
  by (simp add: deletes_succeed_def)

lemma run_afterSave_abort:
  assumes "saves_succeed xs s k n ov"
    and "f (foldl (save_step k n ov) s xs) k n ov = (s', Some e)"
  shows "run_afterSave 0 (xs @ f # ys) s k n ov =
           (s', Some (Wrapf e ''interceptor %d failed'' (ArgIndex (length xs))))"
  using run_afterSave_append [OF assms(1), of 0 "f # ys"] assms(2) by simp

lemma run_afterSave_all:
  assumes "saves_succeed xs s k n ov"
  shows "run_afterSave 0 xs s k n ov = (foldl (save_step k n ov) s xs, None)"
  using run_afterSave_append [OF assms, of 0 "[]"] by simp

lemma run_afterDelete_abort:
  assumes "deletes_succeed xs s k v"
    and "f (foldl (delete_step k v) s xs) k v = (s', Some e)"
  shows "run_afterDelete 0 (xs @ f # ys) s k v =
           (s', Some (Wrapf e ''delete interceptor %d failed'' (ArgIndex (length xs))))"
  using run_afterDelete_append [OF assms(1), of 0 "f # ys"] assms(2) by simp

lemma run_afterDelete_all:
  assumes "deletes_succeed xs s k v"
  shows "run_afterDelete 0 xs s k v = (foldl (delete_step k v) s xs, None)"
  using run_afterDelete_append [OF assms, of 0 "[]"] by simp

lemma GetOne_nonempty:
  "GetOne a store rowID dest = (old, None) \<Longrightarrow> slice_len rowID \<noteq> 0"
  by (auto simp: GetOne_def NewTypeSafeRowGetter_def split: if_splits)

lemma prefix_Set_nonempty:
  "slice_len rowID \<noteq> 0 \<Longrightarrow>
   prefix_Set [p] store (bytes_of rowID) v = Inr (kv_Set store (p # bytes_of rowID) v)"
  by (cases rowID) (simp_all add: prefix_Set_def slice_len_def bytes_of_def)

lemma Create_reaches_chain:
  assumes "assertCorrectType (model a) obj = None" and "assertValid rt obj = None"
    and "cdc a = Some c" and "Marshal c obj = Inr v" and "slice_len k \<noteq> 0"
  shows "Create rt a store k obj =
           run_afterSave 0 (afterSave a) (kv_Set store (prefix a # bytes_of k) v) k obj None"
  using assms by (simp add: Create_def prefix_Set_nonempty)

lemma Update_reaches_chain:
  assumes "assertCorrectType (model a) obj = None" and "assertValid rt obj = None"
    and "GetOne a store k (reflect_New rt (model a)) = (old, None)"
    and "cdc a = Some c" and "Marshal c obj = Inr v"
  shows "Update rt a store k obj =
           run_afterSave 0 (afterSave a) (kv_Set store (prefix a # bytes_of k) v) k obj (Some old)"
  using assms GetOne_nonempty [OF assms(3)] by (simp add: Update_def prefix_Set_nonempty)

lemma Delete_reaches_chain:
  assumes "GetOne a store k (reflect_New rt (model a)) = (old, None)"
  shows "Delete rt a store k =
           run_afterDelete 0 (afterDelete a) (prefix_Delete [prefix a] store (bytes_of k)) k old"
  using assms by (simp add: Delete_def)

lemma wrong_type_is_ErrType:
  "TypeOf dest \<noteq> Ptr mdl \<Longrightarrow> \<exists>e. assertCorrectType mdl dest = Some e \<and> cause e = ErrType"
  by (cases "TypeOf dest") (auto simp: assertCorrectType_def)

section \<open>Evaluation on concrete inputs\<close>

lemmas store_defs = kv_Get_def kv_Set_def kv_Delete_def kv_keys_def in_range_def
  kv_Iterator_def kv_ReverseIterator_def Valid_def Key_def Value_def Next_def
  prefix_Get_def prefix_Set_def prefix_Delete_def prefix_keys_def prefix_Iterator_def
  HasPrefix_def PrefixRange_def bytes_Compare_def slice_len_def bytes_of_def

lemmas table_defs = assertCorrectType_def assertValid_def NewTypeSafeRowGetter_def GetOne_def
  Create_def Update_def Delete_def Has_def PrefixScan_def ReversePrefixScan_def
  NewInvalidIterator_def InvalidIterator_LoadNext_def typeSafeIterator_LoadNext_def
  cdc_Unmarshal_def reflect_New_def NewTableBuilder_def Build_def

lemmas example_defs = bytesCodec_def plainRuntime_def indexWriter_def failingSave_def
  markerSave_def rowEraser_def indexRemover_def failingDelete_def markerDelete_def
  nftTable_def indexedTable_def failingTable_def erasingTable_def row_def

section \<open>The claims\<close>

subsection \<open>C1: round trip\<close>

text \<open>
  Claim C1, as amended. For a non-empty RowID \<open>k\<close>, a record \<open>r\<close> of the table's
  type, a destination of the same type, a codec whose Unmarshal gives back \<open>r\<close> from
  what Marshal made of it, and AfterSave interceptors that leave the table's namespace alone:
  when \<open>Create\<close> returns no error (so \<open>r\<close> passed validation and no interceptor
  failed), \<open>GetOne\<close> on the resulting store succeeds and the destination equals \<open>r\<close>.
\<close>

theorem round_trip:
  assumes "k \<noteq> []"
    and "assertCorrectType (model a) r = None"
    and "TypeOf dest = TypeOf r"
    and "cdc a = Some c"
    and "\<forall>v. Marshal c r = Inr v \<longrightarrow> Unmarshal c v dest = (r, None)"
    and "\<forall>itc\<in>set (afterSave a). leaves_namespace (prefix a) itc"
    and "Create rt a store (Some k) r = (store', None)"
  shows "GetOne a store' (Some k) dest = (r, None)"
proof -
  let ?s0 = "\<lambda>v. kv_Set store (prefix a # k) v"
  from assms(1,2,4,7) obtain v where v: "Marshal c r = Inr v"
    and run: "run_afterSave 0 (afterSave a) (?s0 v) (Some k) r None = (store', None)"
    by (auto simp: Create_def prefix_Set_def bytes_of_def split: option.splits sum.splits)
  have same: "prefix_Iterator [prefix a] store' None None =
      prefix_Iterator [prefix a] (?s0 v) None None"
    using run_afterSave_namespace [OF assms(6), of 0 "?s0 v" "Some k" r None] run by simp
  have typed: "assertCorrectType (model a) dest = None"
    using assms(2,3) by (simp add: assertCorrectType_def)
  have "kv_Get (?s0 v) ([prefix a] @ k) = Some v"
    by (simp add: kv_Set_def kv_Get_def)
  moreover have "HasPrefix k k" by (simp add: HasPrefix_def)
  moreover have "\<forall>x. HasPrefix x k \<and> kv_Get (?s0 v) ([prefix a] @ x) \<noteq> None \<longrightarrow> k \<le> x"
    by (auto simp: HasPrefix_iff le_append_self)
  ultimately have "NewTypeSafeRowGetter [prefix a] (model a) (cdc a) (?s0 v) (Some k) dest
      = cdc_Unmarshal (cdc a) v dest"
    using rowGetter_first_match [OF assms(1) typed] by blast
  also have "\<dots> = (r, None)"
    using assms(4,5) v by (simp add: cdc_Unmarshal_def)
  finally show ?thesis
    by (simp add: GetOne_def rowGetter_same_namespace [OF same])
qed

text \<open>
  Witness for C1: the indexed table (its interceptors write the index entry and the mark) on
  a store that already holds a longer key.
\<close>

theorem round_trip_witness:
  "Create plainRuntime indexedTable [([1, 97, 98], [5])] (Some [97]) (row [7]) =
     ([([9], [9]), ([2, 97], []), ([1, 97], [7]), ([1, 97, 98], [5])], None) \<and>
   GetOne indexedTable [([9], [9]), ([2, 97], []), ([1, 97], [7]), ([1, 97, 98], [5])] (Some [97]) (row [])
     = (row [7], None)"
proof -
  have c: "Create plainRuntime indexedTable [([1, 97, 98], [5])] (Some [97]) (row [7]) =
     ([([9], [9]), ([2, 97], []), ([1, 97], [7]), ([1, 97, 98], [5])], None)"
    by (simp add: table_defs store_defs example_defs)
  have l: "\<forall>itc\<in>set (afterSave indexedTable). leaves_namespace (prefix indexedTable) itc"
    by (simp add: indexedTable_def leaves_namespace_def indexWriter_def markerSave_def
          prefix_Iterator_other_namespace HasPrefix_def)
  have "GetOne indexedTable [([9], [9]), ([2, 97], []), ([1, 97], [7]), ([1, 97, 98], [5])] (Some [97])
          (row []) = (row [7], None)"
    by (rule round_trip [OF _ _ _ _ _ l c, where c = bytesCodec])
       (simp_all add: table_defs example_defs)
  with c show ?thesis by simp
qed

text \<open>
  Counterexample to C1 as stated: the codec inverts Marshal and no interceptor fails, but the
  one interceptor of the table removes the row that \<open>Create\<close> has just written, and
  \<open>GetOne\<close> returns ErrNotFound.
\<close>

theorem round_trip_counterexample:
  "Create plainRuntime erasingTable [] (Some [97]) (row [7]) = ([], None) \<and>
   GetOne erasingTable [] (Some [97]) (row []) = (row [], Some ErrNotFound) \<and>
   Unmarshal bytesCodec [7] (row []) = (row [7], None) \<and>
   Marshal bytesCodec (row [7]) = Inr [7]"
  by (simp add: table_defs store_defs example_defs)

subsection \<open>C2: empty key rejection\<close>

text \<open>
  Claim C2, as amended. With a RowID of length zero (nil or empty), \<open>GetOne\<close> returns
  ErrArgument and leaves the destination as it was; \<open>Delete\<close>, and \<open>Update\<close> given
  an object of the table's type that passes validation, return ErrArgument wrapped as "load
  old value" and return the store as it was; \<open>Create\<close> returns the store as it was,
  whatever it is given. \<open>Has\<close> with a nil RowID panics, whatever the store holds.
\<close>

theorem empty_key_rejection:
  "(slice_len rowID = 0 \<longrightarrow>
      GetOne a store rowID dest = (dest, Some (Wrap ErrArgument ''key must not be nil'')) \<and>
      Delete rt a store rowID =
        (store, Some (Wrap (Wrap ErrArgument ''key must not be nil'') ''load old value'')) \<and>
      (assertCorrectType (model a) obj = None \<and> assertValid rt obj = None \<longrightarrow>
         Update rt a store rowID obj =
           (store, Some (Wrap (Wrap ErrArgument ''key must not be nil'') ''load old value''))) \<and>
      fst (Create rt a store rowID obj) = store) \<and>
   Has a store None = Inl (Panic ''nil key not allowed'')"
proof (intro conjI impI)
  assume z: "slice_len rowID = 0"
  then show "GetOne a store rowID dest = (dest, Some (Wrap ErrArgument ''key must not be nil''))"
    by (simp add: GetOne_def NewTypeSafeRowGetter_def)
  from z show "Delete rt a store rowID =
      (store, Some (Wrap (Wrap ErrArgument ''key must not be nil'') ''load old value''))"
    by (simp add: Delete_def GetOne_def NewTypeSafeRowGetter_def)
  from z have "bytes_of rowID = []"
    by (cases rowID) (simp_all add: slice_len_def bytes_of_def)
  then show "fst (Create rt a store rowID obj) = store"
    by (simp add: Create_def prefix_Set_def split: option.split sum.split)
next
  assume "slice_len rowID = 0"
    and "assertCorrectType (model a) obj = None \<and> assertValid rt obj = None"
  then show "Update rt a store rowID obj =
      (store, Some (Wrap (Wrap ErrArgument ''key must not be nil'') ''load old value''))"
    by (simp add: Update_def GetOne_def NewTypeSafeRowGetter_def)
next
  show "Has a store None = Inl (Panic ''nil key not allowed'')"
    by (simp add: Has_def PrefixRange_def)
qed

text \<open>
  Witness for C2: the empty RowID and an object of the table's type on a store that holds a
  row, and the root of the wrapped error.
\<close>

theorem empty_key_rejection_witness:
  "slice_len (Some []) = 0 \<and>
   assertCorrectType (model nftTable) (row [7]) = None \<and>
   assertValid plainRuntime (row [7]) = None \<and>
   GetOne nftTable [([1, 97], [5])] (Some []) (row []) =
     (row [], Some (Wrap ErrArgument ''key must not be nil'')) \<and>
   Delete plainRuntime nftTable [([1, 97], [5])] (Some []) =
     ([([1, 97], [5])], Some (Wrap (Wrap ErrArgument ''key must not be nil'') ''load old value'')) \<and>
   Update plainRuntime nftTable [([1, 97], [5])] (Some []) (row [7]) =
     ([([1, 97], [5])], Some (Wrap (Wrap ErrArgument ''key must not be nil'') ''load old value'')) \<and>
   fst (Create plainRuntime nftTable [([1, 97], [5])] (Some []) (row [7])) = [([1, 97], [5])] \<and>
   cause (Wrap (Wrap ErrArgument ''key must not be nil'') ''load old value'') = ErrArgument"
proof -
  have h: "slice_len (Some ([] :: bytes)) = 0"
      "assertCorrectType (model nftTable) (row [7]) = None \<and>
       assertValid plainRuntime (row [7]) = None"
    by (simp_all add: table_defs slice_len_def example_defs)
  with empty_key_rejection [where rowID = "Some []" and a = nftTable
      and store = "[([1, 97], [5])]" and dest = "row []" and rt = plainRuntime
      and obj = "row [7]"]
  show ?thesis by simp
qed

text \<open>
  Counterexample to C2 as stated: on a table that holds a row, \<open>Has\<close> with the empty
  non-nil RowID returns true, and on the empty store it returns false, so it reads the
  store and does not yield false; \<open>Create\<close> with a RowID of length zero, nil or empty,
  does not return ArgumentError: the store's Set panics.
\<close>

theorem empty_key_rejection_counterexample:
  "Has nftTable [([1, 97], [5])] (Some []) = Inr True \<and>
   Has nftTable [] (Some []) = Inr False \<and>
   Create plainRuntime nftTable [([1, 97], [5])] (Some []) (row [7]) =
     ([([1, 97], [5])], Some (Panic ''key is nil'')) \<and>
   Create plainRuntime nftTable [([1, 97], [5])] None (row [7]) =
     ([([1, 97], [5])], Some (Panic ''key is nil''))"
  by (simp add: table_defs store_defs example_defs)

subsection \<open>C3: namespace-confined scans\<close>

text \<open>
  Claim C3 at a failing input. The store holds the row "a" of the table (raw key 01 61) and
  the row "b" of the table under prefix byte 2 (raw key 02 62). \<open>PrefixScan\<close> with nil
  bounds hands the store's own iterator to the typed iterator, so the scan visits both raw
  keys: the first \<open>LoadNext\<close> returns the raw key 01 61 as the RowID and ErrNotFound (the
  row getter prepends the prefix again), the second returns the key of the other table.
  \<open>GetOne\<close> finds the row under RowID "a".
\<close>

theorem scan_visits_raw_store:
  "PrefixScan nftTable [([2, 98], [8]), ([1, 97], [7])] None None =
     (typeSafeIterator (NewTypeSafeRowGetter [1] (Struct 1) (Some bytesCodec))
        [([1, 97], [7]), ([2, 98], [8])], None) \<and>
   LoadNext (typeSafeIterator (NewTypeSafeRowGetter [1] (Struct 1) (Some bytesCodec))
        [([1, 97], [7]), ([2, 98], [8])]) [([2, 98], [8]), ([1, 97], [7])] (row []) =
     (typeSafeIterator (NewTypeSafeRowGetter [1] (Struct 1) (Some bytesCodec)) [([2, 98], [8])],
      Some [1, 97], row [], Some ErrNotFound) \<and>
   LoadNext (typeSafeIterator (NewTypeSafeRowGetter [1] (Struct 1) (Some bytesCodec))
        [([2, 98], [8])]) [([2, 98], [8]), ([1, 97], [7])] (row []) =
     (typeSafeIterator (NewTypeSafeRowGetter [1] (Struct 1) (Some bytesCodec)) [],
      Some [2, 98], row [], Some ErrNotFound) \<and>
   GetOne nftTable [([2, 98], [8]), ([1, 97], [7])] (Some [97]) (row []) = (row [7], None)"
  by (simp add: table_defs store_defs example_defs)

subsection \<open>C4: no implicit creation\<close>

text \<open>
  Claim C4 at a failing input. The table holds the row "ab" only. RowID "a" is absent, yet
  \<open>Update\<close> of "a" returns no error and writes the key: the row getter probes the range
  of the keys that extend "a" and takes "ab" for the old value.
\<close>

theorem update_creates_absent_key:
  "kv_Get [([1, 97, 98], [5])] [1, 97] = None \<and>
   Update plainRuntime nftTable [([1, 97, 98], [5])] (Some [97]) (row [7]) =
     ([([1, 97], [7]), ([1, 97, 98], [5])], None) \<and>
   kv_Get [([1, 97], [7]), ([1, 97, 98], [5])] [1, 97] = Some [7]"
  by (simp add: table_defs store_defs example_defs)

subsection \<open>C5: interceptor ordering, abort and no rollback\<close>

text \<open>
  Claim C5. Once \<open>Create\<close>, \<open>Update\<close> or \<open>Delete\<close> has performed its raw store
  mutation (the object has the table's type and is valid, the codec encoded it, the RowID of
  Create has a length other than zero, so that the store's Set does not panic, and for
  Update and Delete the old value was loaded), the interceptors run in registration order,
  each on the store its predecessor left, starting from the store after the raw mutation.
  When all of them succeed the operation returns no error and the store the last one left.
  When \<open>xs\<close> succeed and the next interceptor \<open>f\<close> returns the error \<open>e\<close>, the
  operation returns \<open>e\<close> wrapped with the position of \<open>f\<close> in the list (counted from
  zero, as the source's loop index is) and the store as \<open>f\<close> left it: the interceptors
  \<open>ys\<close> after \<open>f\<close> have no influence on the result, and nothing is rolled back.
\<close>

theorem interceptor_chain:
  "(assertCorrectType (model a) obj = None \<and> assertValid rt obj = None \<and>
    cdc a = Some c \<and> Marshal c obj = Inr v \<and> slice_len k \<noteq> 0 \<and>
    saves_succeed xs (kv_Set store (prefix a # bytes_of k) v) k obj None \<longrightarrow>
      (afterSave a = xs \<longrightarrow>
         Create rt a store k obj =
           (foldl (save_step k obj None) (kv_Set store (prefix a # bytes_of k) v) xs, None)) \<and>
      (afterSave a = xs @ f # ys \<and>
       f (foldl (save_step k obj None) (kv_Set store (prefix a # bytes_of k) v) xs) k obj None
         = (store', Some e) \<longrightarrow>
         Create rt a store k obj =
           (store', Some (Wrapf e ''interceptor %d failed'' (ArgIndex (length xs)))))) \<and>
   (assertCorrectType (model a) obj = None \<and> assertValid rt obj = None \<and>
    GetOne a store k (reflect_New rt (model a)) = (old, None) \<and>
    cdc a = Some c \<and> Marshal c obj = Inr v \<and>
    saves_succeed xs (kv_Set store (prefix a # bytes_of k) v) k obj (Some old) \<longrightarrow>
      (afterSave a = xs \<longrightarrow>
         Update rt a store k obj =
           (foldl (save_step k obj (Some old)) (kv_Set store (prefix a # bytes_of k) v) xs, None)) \<and>
      (afterSave a = xs @ f # ys \<and>
       f (foldl (save_step k obj (Some old)) (kv_Set store (prefix a # bytes_of k) v) xs) k obj (Some old)
         = (store', Some e) \<longrightarrow>
         Update rt a store k obj =
           (store', Some (Wrapf e ''interceptor %d failed'' (ArgIndex (length xs)))))) \<and>
   (GetOne a store k (reflect_New rt (model a)) = (old, None) \<and>
    deletes_succeed ds (prefix_Delete [prefix a] store (bytes_of k)) k old \<longrightarrow>
      (afterDelete a = ds \<longrightarrow>
         Delete rt a store k =
           (foldl (delete_step k old) (prefix_Delete [prefix a] store (bytes_of k)) ds, None)) \<and>
      (afterDelete a = ds @ g # hs \<and>
       g (foldl (delete_step k old) (prefix_Delete [prefix a] store (bytes_of k)) ds) k old
         = (store'', Some e') \<longrightarrow>
         Delete rt a store k =
           (store'', Some (Wrapf e' ''delete interceptor %d failed'' (ArgIndex (length ds))))))"
proof (intro conjI impI; (elim conjE)?)
  assume "assertCorrectType (model a) obj = None" "assertValid rt obj = None"
    "cdc a = Some c" "Marshal c obj = Inr v" "slice_len k \<noteq> 0"
    "saves_succeed xs (kv_Set store (prefix a # bytes_of k) v) k obj None" "afterSave a = xs"
  then show "Create rt a store k obj =
      (foldl (save_step k obj None) (kv_Set store (prefix a # bytes_of k) v) xs, None)"
    by (simp add: Create_reaches_chain run_afterSave_all)
next
  assume "assertCorrectType (model a) obj = None" "assertValid rt obj = None"
    "cdc a = Some c" "Marshal c obj = Inr v" "slice_len k \<noteq> 0"
    "saves_succeed xs (kv_Set store (prefix a # bytes_of k) v) k obj None" "afterSave a = xs @ f # ys"
    "f (foldl (save_step k obj None) (kv_Set store (prefix a # bytes_of k) v) xs) k obj None
       = (store', Some e)"
  then show "Create rt a store k obj =
      (store', Some (Wrapf e ''interceptor %d failed'' (ArgIndex (length xs))))"
    by (simp add: Create_reaches_chain run_afterSave_abort)
next
  assume "assertCorrectType (model a) obj = None" "assertValid rt obj = None"
    "GetOne a store k (reflect_New rt (model a)) = (old, None)"
    "cdc a = Some c" "Marshal c obj = Inr v"
    "saves_succeed xs (kv_Set store (prefix a # bytes_of k) v) k obj (Some old)" "afterSave a = xs"
  then show "Update rt a store k obj =
      (foldl (save_step k obj (Some old)) (kv_Set store (prefix a # bytes_of k) v) xs, None)"
    by (simp add: Update_reaches_chain run_afterSave_all)
next
  assume "assertCorrectType (model a) obj = None" "assertValid rt obj = None"
    "GetOne a store k (reflect_New rt (model a)) = (old, None)"
    "cdc a = Some c" "Marshal c obj = Inr v"
    "saves_succeed xs (kv_Set store (prefix a # bytes_of k) v) k obj (Some old)"
    "afterSave a = xs @ f # ys"
    "f (foldl (save_step k obj (Some old)) (kv_Set store (prefix a # bytes_of k) v) xs) k obj (Some old)
       = (store', Some e)"
  then show "Update rt a store k obj =
      (store', Some (Wrapf e ''interceptor %d failed'' (ArgIndex (length xs))))"
    by (simp add: Update_reaches_chain run_afterSave_abort)
next
  assume "GetOne a store k (reflect_New rt (model a)) = (old, None)"
    "deletes_succeed ds (prefix_Delete [prefix a] store (bytes_of k)) k old" "afterDelete a = ds"
  then show "Delete rt a store k =
      (foldl (delete_step k old) (prefix_Delete [prefix a] store (bytes_of k)) ds, None)"
    by (simp add: Delete_reaches_chain run_afterDelete_all)
next
  assume "GetOne a store k (reflect_New rt (model a)) = (old, None)"
    "deletes_succeed ds (prefix_Delete [prefix a] store (bytes_of k)) k old" "afterDelete a = ds @ g # hs"
    "g (foldl (delete_step k old) (prefix_Delete [prefix a] store (bytes_of k)) ds) k old
       = (store'', Some e')"
  then show "Delete rt a store k =
      (store'', Some (Wrapf e' ''delete interceptor %d failed'' (ArgIndex (length ds))))"
    by (simp add: Delete_reaches_chain run_afterDelete_abort)
qed

text \<open>
  Witness for C5: in the failing table the index interceptor runs, the second interceptor
  fails and the third never leaves its mark; the raw write (or removal) and the index
  entry written before the failure remain. In the indexed table all interceptors run.
\<close>

theorem interceptor_chain_witness:
  "Create plainRuntime failingTable [([1, 97], [5])] (Some [97]) (row [7]) =
     ([([2, 97], []), ([1, 97], [7]), ([1, 97], [5])],
      Some (Wrapf (External 7) ''interceptor %d failed'' (ArgIndex 1))) \<and>
   Update plainRuntime failingTable [([1, 97], [5])] (Some [97]) (row [7]) =
     ([([2, 97], []), ([1, 97], [7]), ([1, 97], [5])],
      Some (Wrapf (External 7) ''interceptor %d failed'' (ArgIndex 1))) \<and>
   Delete plainRuntime failingTable [([2, 97], []), ([1, 97], [5])] (Some [97]) =
     ([], Some (Wrapf (External 8) ''delete interceptor %d failed'' (ArgIndex 1))) \<and>
   Create plainRuntime indexedTable [([1, 97], [5])] (Some [97]) (row [7]) =
     ([([9], [9]), ([2, 97], []), ([1, 97], [7]), ([1, 97], [5])], None) \<and>
   Update plainRuntime indexedTable [([1, 97], [5])] (Some [97]) (row [7]) =
     ([([9], [9]), ([2, 97], []), ([1, 97], [7]), ([1, 97], [5])], None) \<and>
   Delete plainRuntime indexedTable [([2, 97], []), ([1, 97], [5])] (Some [97]) =
     ([([9], [9])], None)"
proof -
  let ?s = "[([1, 97], [5])] :: KVStore"
  let ?d = "[([2, 97], []), ([1, 97], [5])] :: KVStore"
  have typed: "assertCorrectType (model failingTable) (row [7]) = None"
      "assertCorrectType (model indexedTable) (row [7]) = None"
    and valid: "assertValid plainRuntime (row [7]) = None"
    and codec: "cdc failingTable = Some bytesCodec" "cdc indexedTable = Some bytesCodec"
      "Marshal bytesCodec (row [7]) = Inr [7]"
    by (simp_all add: table_defs example_defs)
  have old: "GetOne failingTable ?s (Some [97]) (reflect_New plainRuntime (model failingTable))
        = (row [5], None)"
      "GetOne indexedTable ?s (Some [97]) (reflect_New plainRuntime (model indexedTable))
        = (row [5], None)"
      "GetOne failingTable ?d (Some [97]) (reflect_New plainRuntime (model failingTable))
        = (row [5], None)"
      "GetOne indexedTable ?d (Some [97]) (reflect_New plainRuntime (model indexedTable))
        = (row [5], None)"
    by (simp_all add: table_defs store_defs example_defs)
  have lists: "afterSave failingTable = [indexWriter] @ failingSave # [markerSave]"
      "afterDelete failingTable = [indexRemover] @ failingDelete # [markerDelete]"
      "afterSave indexedTable = [indexWriter, markerSave]"
      "afterDelete indexedTable = [indexRemover, markerDelete]"
    by (simp_all add: example_defs)
  have ne: "slice_len (Some [97 :: byte]) \<noteq> 0" by (simp add: slice_len_def)
  have ok: "saves_succeed [indexWriter]
        (kv_Set ?s (prefix failingTable # bytes_of (Some [97])) [7]) (Some [97]) (row [7]) ov"
      "saves_succeed [indexWriter, markerSave]
        (kv_Set ?s (prefix indexedTable # bytes_of (Some [97])) [7]) (Some [97]) (row [7]) ov"
      "deletes_succeed [indexRemover]
        (prefix_Delete [prefix failingTable] ?d (bytes_of (Some [97]))) (Some [97]) (row [5])"
      "deletes_succeed [indexRemover, markerDelete]
        (prefix_Delete [prefix indexedTable] ?d (bytes_of (Some [97]))) (Some [97]) (row [5])"
      for ov
    by (simp_all add: saves_succeed_Cons deletes_succeed_Cons example_defs)
  have fail: "failingSave (foldl (save_step (Some [97]) (row [7]) ov)
        (kv_Set ?s (prefix failingTable # bytes_of (Some [97])) [7]) [indexWriter])
        (Some [97]) (row [7]) ov
        = ([([2, 97], []), ([1, 97], [7]), ([1, 97], [5])], Some (External 7))"
      "failingDelete (foldl (delete_step (Some [97]) (row [5]))
        (prefix_Delete [prefix failingTable] ?d (bytes_of (Some [97]))) [indexRemover])
        (Some [97]) (row [5])
        = ([], Some (External 8))" for ov
    by (simp_all add: save_step_def delete_step_def store_defs example_defs)
  note failing = interceptor_chain [where a = failingTable and rt = plainRuntime
      and obj = "row [7]" and c = bytesCodec and v = "[7]" and k = "Some [97]" and old = "row [5]"
      and xs = "[indexWriter]" and f = failingSave and ys = "[markerSave]"
      and ds = "[indexRemover]" and g = failingDelete and hs = "[markerDelete]"]
  note succeeding = interceptor_chain [where a = indexedTable and rt = plainRuntime
      and obj = "row [7]" and c = bytesCodec and v = "[7]" and k = "Some [97]" and old = "row [5]"
      and xs = "[indexWriter, markerSave]" and ds = "[indexRemover, markerDelete]"]
  have "Create plainRuntime failingTable ?s (Some [97]) (row [7]) =
     ([([2, 97], []), ([1, 97], [7]), ([1, 97], [5])],
      Some (Wrapf (External 7) ''interceptor %d failed'' (ArgIndex 1)))"
    using failing [where store = ?s, THEN conjunct1] typed valid codec lists ok fail ne
    by simp
  moreover have "Update plainRuntime failingTable ?s (Some [97]) (row [7]) =
     ([([2, 97], []), ([1, 97], [7]), ([1, 97], [5])],
      Some (Wrapf (External 7) ''interceptor %d failed'' (ArgIndex 1)))"
    using failing [where store = ?s, THEN conjunct2, THEN conjunct1]
      typed valid codec lists ok fail old
    by simp
  moreover have "Delete plainRuntime failingTable ?d (Some [97]) =
     ([], Some (Wrapf (External 8) ''delete interceptor %d failed'' (ArgIndex 1)))"
    using failing [where store = ?d, THEN conjunct2, THEN conjunct2] lists ok fail old
    by simp
  moreover have "Create plainRuntime indexedTable ?s (Some [97]) (row [7]) =
     ([([9], [9]), ([2, 97], []), ([1, 97], [7]), ([1, 97], [5])], None)"
    using succeeding [where store = ?s, THEN conjunct1] typed valid codec lists ok ne
    by (simp add: save_step_def store_defs example_defs)
  moreover have "Update plainRuntime indexedTable ?s (Some [97]) (row [7]) =
     ([([9], [9]), ([2, 97], []), ([1, 97], [7]), ([1, 97], [5])], None)"
    using succeeding [where store = ?s, THEN conjunct2, THEN conjunct1]
      typed valid codec lists ok old
    by (simp add: save_step_def store_defs example_defs)
  moreover have "Delete plainRuntime indexedTable ?d (Some [97]) = ([([9], [9])], None)"
    using succeeding [where store = ?d, THEN conjunct2, THEN conjunct2] lists ok old
    by (simp add: delete_step_def store_defs example_defs)
  ultimately show ?thesis by blast
qed

subsection \<open>C6: delete removes\<close>

text \<open>
  Claim C6 at a failing input. The table holds the row "ab". \<open>Create\<close> of "a" and then
  \<open>Delete\<close> of "a" both succeed and the key of "a" is gone from the store, yet
  \<open>Has\<close> returns true for "a" and \<open>GetOne\<close> succeeds with the record of "ab".
\<close>

theorem deleted_key_still_found:
  "Create plainRuntime nftTable [([1, 97, 98], [5])] (Some [97]) (row [7]) =
     ([([1, 97], [7]), ([1, 97, 98], [5])], None) \<and>
   Delete plainRuntime nftTable [([1, 97], [7]), ([1, 97, 98], [5])] (Some [97]) =
     ([([1, 97, 98], [5])], None) \<and>
   kv_Get [([1, 97, 98], [5])] [1, 97] = None \<and>
   Has nftTable [([1, 97, 98], [5])] (Some [97]) = Inr True \<and>
   GetOne nftTable [([1, 97, 98], [5])] (Some [97]) (row []) = (row [5], None)"
  by (simp add: table_defs store_defs example_defs)

subsection \<open>C7: type safety of decode\<close>

text \<open>
  Claim C7, as amended. For a destination that is not a pointer to the table's record type,
  \<open>GetOne\<close> with a non-empty RowID returns an error whose root is ErrType and leaves
  the destination as it was; \<open>Create\<close> and \<open>Update\<close> given such an object return
  that error, with any RowID, and return the store as it was.
\<close>

theorem type_safety:
  assumes "TypeOf dest \<noteq> Ptr (model a)"
  shows "\<exists>e. cause e = ErrType \<and>
           (slice_len rowID \<noteq> 0 \<longrightarrow> GetOne a store rowID dest = (dest, Some e)) \<and>
           Create rt a store rowID dest = (store, Some e) \<and>
           Update rt a store rowID dest = (store, Some e)"
proof -
  from wrong_type_is_ErrType [OF assms]
  obtain e where "assertCorrectType (model a) dest = Some e" and "cause e = ErrType" by blast
  then show ?thesis
    by (intro exI [of _ e]) (simp add: GetOne_def NewTypeSafeRowGetter_def Create_def Update_def)
qed

text \<open>
  Witness for C7: a pointer to another struct type.
\<close>

theorem type_safety_witness:
  "TypeOf (ProtoMarshaler (Ptr (Struct 2)) [7]) \<noteq> Ptr (model nftTable) \<and>
   slice_len (Some [97]) \<noteq> 0 \<and>
   (\<exists>e. cause e = ErrType \<and>
      GetOne nftTable [([1, 97], [5])] (Some [97]) (ProtoMarshaler (Ptr (Struct 2)) [7]) =
        (ProtoMarshaler (Ptr (Struct 2)) [7], Some e) \<and>
      Create plainRuntime nftTable [([1, 97], [5])] (Some [97]) (ProtoMarshaler (Ptr (Struct 2)) [7]) =
        ([([1, 97], [5])], Some e) \<and>
      Update plainRuntime nftTable [([1, 97], [5])] (Some [97]) (ProtoMarshaler (Ptr (Struct 2)) [7]) =
        ([([1, 97], [5])], Some e))"
proof -
  have h: "TypeOf (ProtoMarshaler (Ptr (Struct 2)) [7]) \<noteq> Ptr (model nftTable)"
    by (simp add: example_defs)
  have n: "slice_len (Some [97 :: byte]) \<noteq> 0" by (simp add: slice_len_def)
  from type_safety [OF h, of "Some [97]" "[([1, 97], [5])]" plainRuntime] h n
  show ?thesis by simp
qed

text \<open>
  Counterexample to C7 as stated: with a RowID of length zero, nil or empty, the row getter
  checks the key first, and \<open>GetOne\<close> into a destination that is not a pointer returns
  ErrArgument, not ErrType.
\<close>

theorem type_safety_counterexample:
  "TypeOf (ProtoMarshaler (Struct 1) [7]) \<noteq> Ptr (model nftTable) \<and>
   GetOne nftTable [([1, 97], [5])] (Some []) (ProtoMarshaler (Struct 1) [7]) =
     (ProtoMarshaler (Struct 1) [7], Some (Wrap ErrArgument ''key must not be nil'')) \<and>
   GetOne nftTable [([1, 97], [5])] None (ProtoMarshaler (Struct 1) [7]) =
     (ProtoMarshaler (Struct 1) [7], Some (Wrap ErrArgument ''key must not be nil'')) \<and>
   cause (Wrap ErrArgument ''key must not be nil'') \<noteq> ErrType"
  by (simp add: table_defs slice_len_def example_defs)

subsection \<open>C8: scan bound validation\<close>

text \<open>
  Claim C8. With both bounds non-nil and \<open>start \<ge> end\<close>, \<open>PrefixScan\<close> and
  \<open>ReversePrefixScan\<close> return ErrArgument together with the invalid iterator;
  \<open>LoadNext\<close> on the invalid iterator returns ErrIteratorInvalid, leaves the
  destination as it was and leaves the iterator invalid, so every later \<open>LoadNext\<close>
  does the same. When either bound is nil the scans return no error.
\<close>

theorem scan_bound_validation:
  "(en \<le> st \<longrightarrow>
      PrefixScan a store (Some st) (Some en) =
        (InvalidIterator, Some (Wrap ErrArgument ''start must be before end'')) \<and>
      ReversePrefixScan a store (Some st) (Some en) =
        (InvalidIterator, Some (Wrap ErrArgument ''start must be before end''))) \<and>
   LoadNext InvalidIterator store' dest = (InvalidIterator, None, dest, Some ErrIteratorInvalid) \<and>
   (start = None \<or> end' = None \<longrightarrow>
      snd (PrefixScan a store start end') = None \<and>
      snd (ReversePrefixScan a store start end') = None)"
  by (auto simp: PrefixScan_def ReversePrefixScan_def NewInvalidIterator_def
        InvalidIterator_LoadNext_def bytes_Compare_def)

text \<open>
  Witness for C8: equal bounds, bounds in the wrong order, and one nil bound.
\<close>

theorem scan_bound_validation_witness:
  "([98] :: bytes) \<le> [98] \<and>
   PrefixScan nftTable [([1, 97], [5])] (Some [98]) (Some [98]) =
     (InvalidIterator, Some (Wrap ErrArgument ''start must be before end'')) \<and>
   ReversePrefixScan nftTable [([1, 97], [5])] (Some [99]) (Some [98]) =
     (InvalidIterator, Some (Wrap ErrArgument ''start must be before end'')) \<and>
   LoadNext InvalidIterator [([1, 97], [5])] (row []) =
     (InvalidIterator, None, row [], Some ErrIteratorInvalid) \<and>
   snd (PrefixScan nftTable [([1, 97], [5])] None (Some [98])) = None \<and>
   snd (ReversePrefixScan nftTable [([1, 97], [5])] (Some [98]) None) = None"
proof -
  have h: "([98] :: bytes) \<le> [98]" "([98] :: bytes) \<le> [99]" by simp_all
  from scan_bound_validation [where st = "[98]" and en = "[98]" and a = nftTable
        and store = "[([1, 97], [5])]" and store' = "[([1, 97], [5])]" and dest = "row []"
        and start = None and end' = "Some [98]"]
    scan_bound_validation [where st = "[99]" and en = "[98]" and a = nftTable
        and store = "[([1, 97], [5])]" and store' = "[([1, 97], [5])]" and dest = "row []"
        and start = "Some [98]" and end' = None]
    h
  show ?thesis by simp
qed

subsection \<open>C9: builder misconfiguration\<close>

text \<open>
  Claim C9, as amended. \<open>NewTableBuilder\<close> panics when the record prototype is nil,
  and when the index key codec is nil.
\<close>

theorem builder_misconfiguration:
  "NewTableBuilder p None idxKeyCodec c = Inl (Panic ''Model must not be nil'') \<and>
   NewTableBuilder p (Some m) None c = Inl (Panic ''IndexKeyCodec must not be nil'')"
  by (simp add: NewTableBuilder_def)

text \<open>
  Counterexample to C9 as stated: with a nil record codec \<open>NewTableBuilder\<close> returns
  a builder; the table built from it panics only when \<open>Create\<close> reaches the codec.
\<close>

theorem builder_misconfiguration_counterexample:
  "NewTableBuilder 1 (Some (row [])) (Some ()) None =
     Inr \<lparr> Builder.model = Struct 1, prefixData = 1, indexKeyCodec = (),
           Builder.afterSave = [], Builder.afterDelete = [], Builder.cdc = None \<rparr> \<and>
   Create plainRuntime
     (Build \<lparr> Builder.model = Struct 1, prefixData = 1, indexKeyCodec = (),
             Builder.afterSave = [], Builder.afterDelete = [], Builder.cdc = None \<rparr>)
     [] (Some [97]) (row [7]) = ([], Some (Panic ''nil pointer dereference''))"
  by (simp add: table_defs example_defs)

subsection \<open>C10: prefix-match lookup\<close>

text \<open>
  Claim C10. For a non-empty RowID \<open>k\<close> and a destination of the table's type: whenever
  some key \<open>y\<close> of the table's namespace has \<open>k\<close> as a prefix, \<open>Has\<close> returns
  true and \<open>GetOne\<close> does not return ErrNotFound: it returns what the codec's
  Unmarshal returns on the value stored under the least key of the namespace that has
  \<open>k\<close> as a prefix.
\<close>

theorem prefix_match_lookup:
  assumes "k \<noteq> []"
    and "assertCorrectType (model a) dest = None"
    and "HasPrefix y k"
    and "kv_Get store (prefix a # y) = Some w"
  shows "Has a store (Some k) = Inr True \<and>
         (\<exists>m v. HasPrefix m k \<and> kv_Get store (prefix a # m) = Some v \<and>
                (\<forall>x. HasPrefix x k \<and> kv_Get store (prefix a # x) \<noteq> None \<longrightarrow> m \<le> x) \<and>
                GetOne a store (Some k) dest = cdc_Unmarshal (cdc a) v dest)"
proof -
  from assms(4) have y: "kv_Get store (prefix a # y) \<noteq> None" by simp
  from Has_first_match [OF assms(1) y assms(3)] have has: "Has a store (Some k) = Inr True" .
  from least_extension [OF assms(3), of store "[prefix a]"] y
  obtain m v where m: "HasPrefix m k" "kv_Get store ([prefix a] @ m) = Some v"
     "\<forall>x. HasPrefix x k \<and> kv_Get store ([prefix a] @ x) \<noteq> None \<longrightarrow> m \<le> x" by auto
  from rowGetter_first_match [OF assms(1,2) m(2,1,3)]
  have "GetOne a store (Some k) dest = cdc_Unmarshal (cdc a) v dest"
    by (simp add: GetOne_def)
  with has m show ?thesis by auto
qed

text \<open>
  Witness for C10: RowID "a" is absent, "ab" and "ac" are present, and \<open>GetOne\<close>
  decodes the record of "ab".
\<close>

theorem prefix_match_lookup_witness:
  "Has nftTable [([1, 97, 99], [6]), ([1, 97, 98], [5]), ([1, 98], [4])] (Some [97]) = Inr True \<and>
   GetOne nftTable [([1, 97, 99], [6]), ([1, 97, 98], [5]), ([1, 98], [4])] (Some [97]) (row [])
     = (row [5], None)"
proof -
  let ?s = "[([1, 97, 99], [6]), ([1, 97, 98], [5]), ([1, 98], [4])] :: KVStore"
  have h: "[97] \<noteq> ([] :: bytes)" "assertCorrectType (model nftTable) (row []) = None"
    "HasPrefix [97, 99] [97]" "kv_Get ?s (prefix nftTable # [97, 99]) = Some [6]"
    by (simp_all add: table_defs store_defs example_defs)
  from prefix_match_lookup [OF h]
  obtain m v where has: "Has nftTable ?s (Some [97]) = Inr True"
    and m: "HasPrefix m [97]" "kv_Get ?s (prefix nftTable # m) = Some v"
      "\<forall>x. HasPrefix x [97] \<and> kv_Get ?s (prefix nftTable # x) \<noteq> None \<longrightarrow> m \<le> x"
    and g: "GetOne nftTable ?s (Some [97]) (row []) = cdc_Unmarshal (cdc nftTable) v (row [])"
    by blast
  have "kv_Get ?s (prefix nftTable # [97, 98]) \<noteq> None" "HasPrefix [97, 98] [97]"
    by (simp_all add: store_defs example_defs)
  with m(3) have "m \<le> [97, 98]" by blast
  moreover from m(2) have "m = [97, 99] \<or> m = [97, 98] \<or> m = [98]"
    by (auto simp: store_defs example_defs split: if_splits)
  ultimately have "m = [97, 98]" using m(1) by (auto simp: HasPrefix_def)
  with m(2) have "v = [5]" by (simp add: store_defs example_defs)
  with g has show ?thesis by (simp add: table_defs example_defs)
qed

end
